theory Spec2Isabelle
  imports Main "HOL-Library.Sublist" "HOL-Library.Char_ord" "HOL-Library.List_Lexorder"
begin

section \<open>Tokenizer\<close>

text \<open>
  Go strings are byte sequences, modelled as \<^typ>\<open>string\<close> (a list of 8-bit characters).
  The scans of \<open>cmd.go\<close> range over the runes of a string and compare each one with an
  ASCII delimiter (space, tab, double quote), and they slice at the byte offset of the rune
  found. No byte of a multi-byte UTF-8 sequence, and no invalid byte, is an ASCII byte, so
  the scan finds the same offset as a scan over the bytes.
\<close>

abbreviation dquote :: char where "dquote \<equiv> CHR 0x22"
abbreviation tab :: char where "tab \<equiv> CHR 0x09"
abbreviation space :: char where "space \<equiv> CHR 0x20"

text \<open>
  \<open>for i, c := range s { if c != ' ' && c != '\t' { return s[i:] } }; return ""\<close>
\<close>

fun stripLeadingWhitespace :: "string \<Rightarrow> string" where
  "stripLeadingWhitespace [] = []"
| "stripLeadingWhitespace (c # s) =
     (if c \<noteq> space \<and> c \<noteq> tab then c # s else stripLeadingWhitespace s)"

text \<open>
  The offset at which a loop \<open>for i, c := range s { if P c { return ... i ... } }\<close> returns,
  or \<open>None\<close> when the loop runs to the end of the string.
\<close>

fun rangeFind :: "(char \<Rightarrow> bool) \<Rightarrow> string \<Rightarrow> nat option" where
  "rangeFind P [] = None"
| "rangeFind P (c # s) = (if P c then Some 0 else map_option Suc (rangeFind P s))"

text \<open>Go's slice expressions \<open>s[i:j]\<close> and \<open>s[i:]\<close>, for offsets within the string.\<close>

definition slice :: "string \<Rightarrow> nat \<Rightarrow> nat \<Rightarrow> string" where
  "slice s i j = take (j - i) (drop i s)"

definition sliceFrom :: "string \<Rightarrow> nat \<Rightarrow> string" where
  "sliceFrom s i = drop i s"

definition nextField :: "string \<Rightarrow> string \<times> string" where
  "nextField s =
     (if length s > 0 \<and> s ! 0 = dquote then
        (case rangeFind (\<lambda>c. c = dquote) (sliceFrom s 1) of
           Some i \<Rightarrow> (slice s 1 (i + 1), stripLeadingWhitespace (sliceFrom s (i + 2)))
         | None \<Rightarrow> (sliceFrom s 1, []))
      else
        (case rangeFind (\<lambda>c. c = space \<or> c = tab) s of
           Some i \<Rightarrow> (slice s 0 i, stripLeadingWhitespace (sliceFrom s i))
         | None \<Rightarrow> (s, [])))"

lemma strip_length_le: "length (stripLeadingWhitespace s) \<le> length s"
  by (induction s) auto

lemma rangeFind_Some_bound: "rangeFind P s = Some i \<Longrightarrow> i < length s \<and> P (s ! i)"
  by (induction s arbitrary: i) (auto split: if_splits)

lemma strip_at_blank:
  assumes "i < length s" "s ! i = space \<or> s ! i = tab"
  shows "length (stripLeadingWhitespace (drop i s)) < length s"
proof -
  have "drop i s = s ! i # drop (Suc i) s"
    using assms(1) by (simp add: Cons_nth_drop_Suc)
  then have "stripLeadingWhitespace (drop i s) = stripLeadingWhitespace (drop (Suc i) s)"
    using assms(2) by auto
  moreover have "length (stripLeadingWhitespace (drop (Suc i) s)) \<le> length (drop (Suc i) s)"
    by (rule strip_length_le)
  ultimately show ?thesis
    using assms(1) by simp
qed

lemma nextField_shorter:
  assumes "s \<noteq> []"
  shows "length (snd (nextField s)) < length s"
proof (cases "s ! 0 = dquote")
  case True
  show ?thesis
  proof (cases "rangeFind (\<lambda>c. c = dquote) (drop 1 s)")
    case None
    with True assms show ?thesis
      by (simp add: nextField_def sliceFrom_def)
  next
    case (Some i)
    have "length (stripLeadingWhitespace (drop (i + 2) s)) \<le> length (drop (i + 2) s)"
      by (rule strip_length_le)
    moreover have "length (drop (i + 2) s) < length s"
      using assms by (cases s) simp_all
    ultimately have "length (stripLeadingWhitespace (drop (i + 2) s)) < length s"
      by (rule le_less_trans)
    with True Some assms show ?thesis
      by (simp add: nextField_def sliceFrom_def)
  qed
next
  case False
  show ?thesis
  proof (cases "rangeFind (\<lambda>c. c = space \<or> c = tab) s")
    case None
    with False assms show ?thesis
      by (simp add: nextField_def)
  next
    case (Some i)
    then have "i < length s" "s ! i = space \<or> s ! i = tab"
      using rangeFind_Some_bound [of "\<lambda>c. c = space \<or> c = tab" s i] by auto
    then have "length (stripLeadingWhitespace (drop i s)) < length s"
      by (rule strip_at_blank)
    with False Some show ?thesis
      by (simp add: nextField_def sliceFrom_def)
  qed
qed

section \<open>Library functions used by the package\<close>

subsection \<open>\<open>strings.Fields\<close>\<close>

text \<open>
  \<open>strings.Fields\<close> of the Go standard library splits a string around each run of white
  space characters as defined by \<open>unicode.IsSpace\<close>: the ASCII characters tab, line feed,
  vertical tab, form feed, carriage return and space, and the code points U+0085, U+00A0,
  U+1680, U+2000 to U+200A, U+2028, U+2029, U+202F, U+205F and U+3000. \<open>spaceWidth s\<close> is
  the number of bytes of the white space character that \<open>s\<close> starts with in UTF-8, or 0
  when it starts with none. An encoding of one of these code points starts with a byte that
  is never a continuation byte, so the decoder of Go always reaches it at its first byte.
\<close>

definition spaceWidth :: "string \<Rightarrow> nat" where
  "spaceWidth s =
     (case s of
        [] \<Rightarrow> 0
      | c # r \<Rightarrow>
          if c = tab \<or> c = CHR 0x0A \<or> c = CHR 0x0B \<or> c = CHR 0x0C \<or> c = CHR 0x0D \<or> c = space
          then 1
          else
            (case r of
               [] \<Rightarrow> 0
             | d # r' \<Rightarrow>
                 if c = CHR 0xC2 \<and> (d = CHR 0x85 \<or> d = CHR 0xA0) then 2
                 else
                   (case r' of
                      [] \<Rightarrow> 0
                    | e # r'' \<Rightarrow>
                        if c = CHR 0xE1 \<and> d = CHR 0x9A \<and> e = CHR 0x80 \<or>
                           c = CHR 0xE2 \<and> d = CHR 0x80 \<and>
                             ((0x80 \<le> (of_char e :: nat) \<and> (of_char e :: nat) \<le> 0x8A) \<or>
                              e = CHR 0xA8 \<or> e = CHR 0xA9 \<or> e = CHR 0xAF) \<or>
                           c = CHR 0xE2 \<and> d = CHR 0x81 \<and> e = CHR 0x9F \<or>
                           c = CHR 0xE3 \<and> d = CHR 0x80 \<and> e = CHR 0x80
                        then 3 else 0)))"

text \<open>
  \<open>fieldsFrom cur s\<close> scans \<open>s\<close> with \<open>cur\<close> the bytes of the field read so far.
\<close>

function fieldsFrom :: "string \<Rightarrow> string \<Rightarrow> string list" where
  "fieldsFrom cur s =
     (if s = [] then (if cur = [] then [] else [cur])
      else if spaceWidth s = 0 then fieldsFrom (cur @ [hd s]) (tl s)
      else (if cur = [] then [] else [cur]) @ fieldsFrom [] (drop (spaceWidth s) s))"
  by pat_completeness auto
termination
  by (relation "measure (\<lambda>(cur, s). length s)") auto

declare fieldsFrom.simps [simp del]

definition Fields :: "string \<Rightarrow> string list" where
  "Fields s = fieldsFrom [] s"

subsection \<open>\<open>sort.SearchStrings\<close>\<close>

text \<open>
  \<open>sort.Search(n, f)\<close> of the Go standard library: the binary search
  \<open>i, j := 0, n; for i < j { h := int(uint(i+j) >> 1); if !f(h) { i = h + 1 } else { j = h } };
  return i\<close>. \<open>sort.SearchStrings(a, x)\<close> is \<open>sort.Search(len(a), func(i) { return a[i] >= x })\<close>,
  where Go orders strings byte by byte, as the lexicographic order on \<^typ>\<open>string\<close> does.
\<close>

function searchLoop :: "(nat \<Rightarrow> bool) \<Rightarrow> nat \<Rightarrow> nat \<Rightarrow> nat" where
  "searchLoop f i j =
     (if i < j then
        (let h = (i + j) div 2 in
         if \<not> f h then searchLoop f (h + 1) j else searchLoop f i h)
      else i)"
  by pat_completeness auto
termination
  by (relation "measure (\<lambda>(f, i, j). j - i)") auto

declare searchLoop.simps [simp del]

definition Search :: "nat \<Rightarrow> (nat \<Rightarrow> bool) \<Rightarrow> nat" where
  "Search n f = searchLoop f 0 n"

definition SearchStrings :: "string list \<Rightarrow> string \<Rightarrow> nat" where
  "SearchStrings a x = Search (length a) (\<lambda>i. a ! i \<ge> x)"

subsection \<open>The prefix tree\<close>

text \<open>
  The package \<open>github.com/beevik/prefixtree/v2\<close> is imported by \<open>cmd.go\<close> and its source
  is not part of the repository. The index is modelled from section 4.2 of the spec, as
  the list of its key-value pairs in the order they were added.
\<close>

type_synonym 'v prefixtree = "(string \<times> 'v) list"

datatype prefixtree_error = ErrPrefixNotFound | ErrPrefixAmbiguous

text \<open>Modelled from the spec: \<open>prefixtree.New\<close>, absent from the sources, is the empty index.\<close>

definition New :: "'v prefixtree" where
  "New = []"

text \<open>
  Modelled from the spec: \<open>Tree.Add\<close>, absent from the sources, inserts the pair. The spec
  leaves adding a key that is already stored unspecified, and every statement below that
  depends on the result of \<open>Add\<close> assumes a new key.
\<close>

definition Add :: "string \<Rightarrow> 'v \<Rightarrow> 'v prefixtree \<Rightarrow> 'v prefixtree" where
  "Add key v pt = pt @ [(key, v)]"

text \<open>
  Modelled from the spec: \<open>Tree.FindValue\<close>, absent from the sources, returns the value of
  the key equal to the query; else the value of the only key that the query is a prefix
  of; else \<open>ErrPrefixAmbiguous\<close> when there are several such keys and \<open>ErrPrefixNotFound\<close>
  when there is none. The empty query is never found.
\<close>

definition FindValue :: "string \<Rightarrow> 'v prefixtree \<Rightarrow> prefixtree_error + 'v" where
  "FindValue q pt =
     (if q = [] then Inl ErrPrefixNotFound
      else case map_of pt q of
        Some v \<Rightarrow> Inr v
      | None \<Rightarrow>
          (case filter (\<lambda>kv. prefix q (fst kv)) pt of
             [] \<Rightarrow> Inl ErrPrefixNotFound
           | [kv] \<Rightarrow> Inr (snd kv)
           | _ \<Rightarrow> Inl ErrPrefixAmbiguous))"

text \<open>
  Modelled from the spec: \<open>Tree.FindKeyValues\<close>, absent from the sources, returns the pairs
  whose key the query is a prefix of, the key equal to the query among them, sorted by key.
\<close>

definition FindKeyValues :: "string \<Rightarrow> 'v prefixtree \<Rightarrow> (string \<times> 'v) list" where
  "FindKeyValues q pt = sort_key fst (filter (\<lambda>kv. prefix q (fst kv)) pt)"

section \<open>Data model\<close>

text \<open>
  Trees and commands are Go objects reached through pointers: a \<open>*Command\<close> is stored in
  the prefix tree of its own tree under its name and in the prefix tree of any tree that
  registered a shortcut for it, and \<open>AddShortcut\<close> updates the command through the pointer.
  The model keeps an explicit store with one address space for trees and one for commands.
  A \<open>Node\<close> is the interface value: a pointer together with its dynamic type.
\<close>

type_synonym addr = nat

datatype Node = CommandNode addr | TreeNode addr

record 'd TreeDescriptor =
  Name :: string
  Brief :: string
  Description :: string
  Usage :: string
  Data :: 'd

record 'd Tree =
  descriptor :: "'d TreeDescriptor"
  commands :: "addr list"
  subtrees :: "addr list"
  pt :: "Node prefixtree"

record 'd CommandDescriptor =
  Name :: string
  Brief :: string
  Description :: string
  Usage :: string
  Data :: 'd

record 'd Command =
  descriptor :: "'d CommandDescriptor"
  shortcuts :: "string list"

record 'd heap =
  treeAt :: "addr \<Rightarrow> 'd Tree"
  commandAt :: "addr \<Rightarrow> 'd Command"
  nextAddr :: addr

datatype error = ErrAmbiguous | ErrNotFound | ErrInvalidShortcut

section \<open>Building a tree\<close>

definition NewTree :: "'d heap \<Rightarrow> 'd TreeDescriptor \<Rightarrow> addr \<times> 'd heap" where
  "NewTree h d =
     (let a = nextAddr h in
      (a, h\<lparr>treeAt := (treeAt h)
               (a := \<lparr>Tree.descriptor = d, commands = [], subtrees = [], pt = New\<rparr>),
             nextAddr := a + 1\<rparr>))"

definition AddCommand :: "'d heap \<Rightarrow> addr \<Rightarrow> 'd CommandDescriptor \<Rightarrow> addr \<times> 'd heap" where
  "AddCommand h t d =
     (let c = nextAddr h;
          tr = treeAt h t
      in (c, h\<lparr>treeAt := (treeAt h)
                  (t := tr\<lparr>commands := commands tr @ [c],
                           pt := Add (CommandDescriptor.Name d) (CommandNode c) (pt tr)\<rparr>),
                commandAt := (commandAt h)
                  (c := \<lparr>Command.descriptor = d, shortcuts = []\<rparr>),
                nextAddr := c + 1\<rparr>))"

definition AddSubtree :: "'d heap \<Rightarrow> addr \<Rightarrow> 'd TreeDescriptor \<Rightarrow> addr \<times> 'd heap" where
  "AddSubtree h t d =
     (let a = nextAddr h;
          h1 = h\<lparr>treeAt := (treeAt h)
                 (a := \<lparr>Tree.descriptor = d, commands = [], subtrees = [], pt = New\<rparr>),
                nextAddr := a + 1\<rparr>;
          tr = treeAt h1 t
      in (a, h1\<lparr>treeAt := (treeAt h1)
                  (t := tr\<lparr>subtrees := subtrees tr @ [a],
                           pt := Add (TreeDescriptor.Name d) (TreeNode a) (pt tr)\<rparr>)\<rparr>))"

section \<open>Lookup\<close>

text \<open>
  The first loop of \<open>Lookup\<close>, from the state \<open>(pt, field, remain)\<close> to the node and the
  remaining text at its \<open>break\<close>, or to the error it returns.
\<close>

function lookupLoop ::
  "'d heap \<Rightarrow> Node prefixtree \<Rightarrow> string \<Rightarrow> string \<Rightarrow> error + Node \<times> string" where
  "lookupLoop h p field remain =
     (case FindValue field p of
        Inl ErrPrefixAmbiguous \<Rightarrow> Inl ErrAmbiguous
      | Inl ErrPrefixNotFound \<Rightarrow> Inl ErrNotFound
      | Inr (CommandNode c) \<Rightarrow> Inr (CommandNode c, remain)
      | Inr (TreeNode st) \<Rightarrow>
          if remain = [] then Inr (TreeNode st, remain)
          else lookupLoop h (pt (treeAt h st))
                 (fst (nextField remain)) (snd (nextField remain)))"
  by pat_completeness auto
termination
  by (relation "measure (\<lambda>(h, p, field, remain). length remain)")
     (auto simp: nextField_shorter split_beta)

declare lookupLoop.simps [simp del]

text \<open>
  The second loop: \<open>for remain != "" { field, remain = nextField(remain);
  args = append(args, field) }\<close>.
\<close>

function collectArgs :: "string list \<Rightarrow> string \<Rightarrow> string list" where
  "collectArgs args remain =
     (if remain \<noteq> [] then
        collectArgs (args @ [fst (nextField remain)]) (snd (nextField remain))
      else args)"
  by pat_completeness auto
termination
  by (relation "measure (\<lambda>(args, remain). length remain)")
     (auto simp: nextField_shorter split_beta)

declare collectArgs.simps [simp del]

text \<open>
  The two loops of \<open>Lookup\<close> together. \<open>Lookup\<close> returns \<open>(n, args, err)\<close>; with an error
  it returns the nil node and the empty argument list, so the result is the error alone.
\<close>

definition lookupFrom ::
  "'d heap \<Rightarrow> Node prefixtree \<Rightarrow> string \<Rightarrow> string \<Rightarrow> error + Node \<times> string list" where
  "lookupFrom h p field remain =
     (case lookupLoop h p field remain of
        Inl e \<Rightarrow> Inl e
      | Inr (n, remain') \<Rightarrow> Inr (n, collectArgs [] remain'))"

definition Lookup :: "'d heap \<Rightarrow> addr \<Rightarrow> string \<Rightarrow> error + Node \<times> string list" where
  "Lookup h t line =
     (let field = fst (nextField (stripLeadingWhitespace line));
          remain = snd (nextField (stripLeadingWhitespace line))
      in if field = [] then Inl ErrNotFound
         else lookupFrom h (pt (treeAt h t)) field remain)"

text \<open>
  \<open>lookupReaches h t line p field remain\<close>: the first loop of \<open>Lookup h t line\<close> comes to
  the head of an iteration with the prefix tree \<open>p\<close>, the field \<open>field\<close> and the
  remaining text \<open>remain\<close>.
\<close>

inductive lookupReaches ::
  "'d heap \<Rightarrow> addr \<Rightarrow> string \<Rightarrow> Node prefixtree \<Rightarrow> string \<Rightarrow> string \<Rightarrow> bool"
  for h :: "'d heap" and t :: addr and line :: string where
  start:
    "fst (nextField (stripLeadingWhitespace line)) \<noteq> [] \<Longrightarrow>
     lookupReaches h t line (pt (treeAt h t))
       (fst (nextField (stripLeadingWhitespace line)))
       (snd (nextField (stripLeadingWhitespace line)))"
| descend:
    "lookupReaches h t line p field remain \<Longrightarrow>
     FindValue field p = Inr (TreeNode st) \<Longrightarrow> remain \<noteq> [] \<Longrightarrow>
     lookupReaches h t line (pt (treeAt h st))
       (fst (nextField remain)) (snd (nextField remain))"

code_pred lookupReaches .

text \<open>
  The argument list as the spec describes it: the fields of the remaining text, taken one
  after the other from the left.
\<close>

function fieldsOf :: "string \<Rightarrow> string list" where
  "fieldsOf remain =
     (if remain = [] then []
      else fst (nextField remain) # fieldsOf (snd (nextField remain)))"
  by pat_completeness auto
termination
  by (relation "measure length") (auto simp: nextField_shorter)

declare fieldsOf.simps [simp del]

definition LookupCommand :: "'d heap \<Rightarrow> addr \<Rightarrow> string \<Rightarrow> error + addr \<times> string list" where
  "LookupCommand h t line =
     (case Lookup h t line of
        Inl e \<Rightarrow> Inl e
      | Inr (CommandNode c, args) \<Rightarrow> Inr (c, args)
      | Inr (TreeNode st, args) \<Rightarrow> Inl ErrNotFound)"

definition LookupSubtree :: "'d heap \<Rightarrow> addr \<Rightarrow> string \<Rightarrow> error + addr \<times> string list" where
  "LookupSubtree h t line =
     (case Lookup h t line of
        Inl e \<Rightarrow> Inl e
      | Inr (TreeNode st, args) \<Rightarrow> Inr (st, args)
      | Inr (CommandNode c, args) \<Rightarrow> Inl ErrNotFound)"

section \<open>Shortcuts\<close>

text \<open>
  \<open>copy(a[d:], a[s:])\<close> on one slice \<open>a\<close>: Go copies \<open>min(len(a[d:]), len(a[s:]))\<close> elements
  and reads the source as it was before the call, also where the two ranges overlap.
\<close>

definition copyWithin :: "'a list \<Rightarrow> nat \<Rightarrow> nat \<Rightarrow> 'a list" where
  "copyWithin a d s =
     (let n = min (length a - d) (length a - s)
      in take d a @ take n (drop s a) @ drop (d + n) a)"

text \<open>
  \<open>AddShortcut\<close> returns the error, \<open>None\<close> for \<open>nil\<close>, and the store it leaves.
\<close>

definition AddShortcut ::
  "'d heap \<Rightarrow> addr \<Rightarrow> string \<Rightarrow> string \<Rightarrow> error option \<times> 'd heap" where
  "AddShortcut h t shortcut target =
     (if length (Fields shortcut) \<noteq> 1 then (Some ErrInvalidShortcut, h)
      else case LookupCommand h t target of
        Inl e \<Rightarrow> (Some e, h)
      | Inr (cmd, args) \<Rightarrow>
          (let i = SearchStrings (shortcuts (commandAt h cmd)) shortcut;
               s1 = shortcuts (commandAt h cmd) @ [''''];
               s2 = copyWithin s1 (i + 1) i;
               s3 = s2[i := shortcut];
               h1 = h\<lparr>commandAt := (commandAt h)
                      (cmd := (commandAt h cmd)\<lparr>shortcuts := s3\<rparr>)\<rparr>;
               h2 = h1\<lparr>treeAt := (treeAt h1)
                      (t := (treeAt h1 t)
                         \<lparr>pt := Add shortcut (CommandNode cmd) (pt (treeAt h1 t))\<rparr>)\<rparr>
           in (None, h2)))"

section \<open>Autocomplete\<close>

text \<open>
  The loop of \<open>Autocomplete\<close> from the state \<open>(pt, prefix, field, remain)\<close>. It descends
  into a subtree also when no input remains, so on a store in which a tree is reachable
  from itself it may run forever: the result is \<open>None\<close> when the loop does not end.
\<close>

partial_function (option) autocompleteLoop ::
  "'d heap \<Rightarrow> Node prefixtree \<Rightarrow> string \<Rightarrow> string \<Rightarrow> string \<Rightarrow> string list option" where
  "autocompleteLoop h p pre field remain =
     (let matches = FindKeyValues field p in
      if length matches = 0 then Some []
      else if length matches > 1 then
        (if remain \<noteq> [] then Some []
         else Some (map (\<lambda>m. pre @ fst m) matches))
      else
        (case matches ! 0 of
           (key, CommandNode c) \<Rightarrow>
             if remain \<noteq> [] then Some [] else Some [pre @ key]
         | (key, TreeNode st) \<Rightarrow>
             if remain = [] \<and> field \<noteq> TreeDescriptor.Name (Tree.descriptor (treeAt h st))
             then Some [pre @ key]
             else autocompleteLoop h (pt (treeAt h st)) (pre @ key @ [space])
                    (fst (nextField remain)) (snd (nextField remain))))"

declare autocompleteLoop.simps [code]

definition Autocomplete :: "'d heap \<Rightarrow> addr \<Rightarrow> string \<Rightarrow> string list option" where
  "Autocomplete h t line =
     autocompleteLoop h (pt (treeAt h t)) []
       (fst (nextField (stripLeadingWhitespace line)))
       (snd (nextField (stripLeadingWhitespace line)))"

text \<open>
  \<open>autocompleteReaches h t line p pre field remain\<close>: the loop of \<open>Autocomplete h t line\<close>
  comes to the head of an iteration with the prefix tree \<open>p\<close>, the accumulated path
  \<open>pre\<close>, the field \<open>field\<close> and the remaining text \<open>remain\<close>.
\<close>

inductive autocompleteReaches ::
  "'d heap \<Rightarrow> addr \<Rightarrow> string \<Rightarrow> Node prefixtree \<Rightarrow> string \<Rightarrow> string \<Rightarrow> string \<Rightarrow> bool"
  for h :: "'d heap" and t :: addr and line :: string where
  start:
    "autocompleteReaches h t line (pt (treeAt h t)) []
       (fst (nextField (stripLeadingWhitespace line)))
       (snd (nextField (stripLeadingWhitespace line)))"
| descend:
    "autocompleteReaches h t line p pre field remain \<Longrightarrow>
     FindKeyValues field p = [(key, TreeNode st)] \<Longrightarrow>
     \<not> (remain = [] \<and> field \<noteq> TreeDescriptor.Name (Tree.descriptor (treeAt h st))) \<Longrightarrow>
     autocompleteReaches h t line (pt (treeAt h st)) (pre @ key @ [space])
       (fst (nextField remain)) (snd (nextField remain))"

code_pred autocompleteReaches .

section \<open>Sequences of registration calls\<close>

datatype 'd call =
    CallNewTree "'d TreeDescriptor"
  | CallAddCommand addr "'d CommandDescriptor"
  | CallAddSubtree addr "'d TreeDescriptor"
  | CallAddShortcut addr string string

fun applyCall :: "'d heap \<Rightarrow> 'd call \<Rightarrow> 'd heap" where
  "applyCall h (CallNewTree d) = snd (NewTree h d)"
| "applyCall h (CallAddCommand t d) = snd (AddCommand h t d)"
| "applyCall h (CallAddSubtree t d) = snd (AddSubtree h t d)"
| "applyCall h (CallAddShortcut t shortcut target) = snd (AddShortcut h t shortcut target)"

fun applyCalls :: "'d heap \<Rightarrow> 'd call list \<Rightarrow> 'd heap" where
  "applyCalls h [] = h"
| "applyCalls h (c # cs) = applyCalls (applyCall h c) cs"

text \<open>The invariant of the spec: the shortcut list of every command is sorted.\<close>

definition shortcutsSorted :: "'d heap \<Rightarrow> bool" where
  "shortcutsSorted h \<longleftrightarrow> (\<forall>c. sorted (shortcuts (commandAt h c)))"

section \<open>The trees of the package tests\<close>

definition treeDesc :: "string \<Rightarrow> unit TreeDescriptor" where
  "treeDesc n =
     \<lparr>TreeDescriptor.Name = n, Brief = [], Description = [], Usage = [], Data = ()\<rparr>"

definition commandDesc :: "string \<Rightarrow> unit CommandDescriptor" where
  "commandDesc n =
     \<lparr>CommandDescriptor.Name = n, Brief = [], Description = [], Usage = [], Data = ()\<rparr>"

definition emptyHeap :: "unit heap" where
  "emptyHeap =
     \<lparr>treeAt = (\<lambda>a. \<lparr>Tree.descriptor = treeDesc [], commands = [], subtrees = [], pt = New\<rparr>),
      commandAt = (\<lambda>a. \<lparr>Command.descriptor = commandDesc [], shortcuts = []\<rparr>),
      nextAddr = 0\<rparr>"

text \<open>
  The tree of \<open>TestParent\<close> before its shortcuts are added: the root tree 0 holds the
  command \<open>quit\<close> (1) and the subtree \<open>file\<close> (2), which holds the subtree \<open>open\<close> (3) with
  the commands \<open>now\<close> (6) and \<open>later\<close> (7), and the commands \<open>close\<close> (4) and \<open>read\<close> (5).
\<close>

definition parentCalls :: "unit call list" where
  "parentCalls =
     [CallNewTree (treeDesc ''tree''),
      CallAddCommand 0 (commandDesc ''quit''),
      CallAddSubtree 0 (treeDesc ''file''),
      CallAddSubtree 2 (treeDesc ''open''),
      CallAddCommand 2 (commandDesc ''close''),
      CallAddCommand 2 (commandDesc ''read''),
      CallAddCommand 3 (commandDesc ''now''),
      CallAddCommand 3 (commandDesc ''later'')]"

definition parentHeap :: "unit heap" where
  "parentHeap = applyCalls emptyHeap parentCalls"

text \<open>
  The tree of \<open>buildTree\<close> in \<open>TestLookup\<close> before its shortcuts are added: the root tree 0
  holds the commands \<open>quit\<close> (1) and \<open>verylongstring\<close> (2) and the subtree \<open>file\<close> (3) with
  the commands \<open>open\<close> (4), \<open>close\<close> (5), \<open>read\<close> (6), \<open>write\<close> (7) and \<open>run\<close> (8).
\<close>

definition buildCalls :: "unit call list" where
  "buildCalls =
     [CallNewTree (treeDesc ''tree''),
      CallAddCommand 0 (commandDesc ''quit''),
      CallAddCommand 0 (commandDesc ''verylongstring''),
      CallAddSubtree 0 (treeDesc ''file''),
      CallAddCommand 3 (commandDesc ''open''),
      CallAddCommand 3 (commandDesc ''close''),
      CallAddCommand 3 (commandDesc ''read''),
      CallAddCommand 3 (commandDesc ''write''),
      CallAddCommand 3 (commandDesc ''run'')]"

definition buildHeap :: "unit heap" where
  "buildHeap = applyCalls emptyHeap buildCalls"

section \<open>Properties of the tokenizer\<close>

lemma rangeFind_None: "rangeFind P s = None \<longleftrightarrow> (\<forall>c \<in> set s. \<not> P c)"
  by (induction s) auto

lemma rangeFind_append:
  "\<forall>c \<in> set a. \<not> P c \<Longrightarrow> P d \<Longrightarrow> rangeFind P (a @ d # b) = Some (length a)"
  by (induction a) auto

lemma strip_blank_prefix:
  "\<forall>c \<in> set ws. c = space \<or> c = tab \<Longrightarrow>
     stripLeadingWhitespace (ws @ s) = stripLeadingWhitespace s"
  by (induction ws) auto

lemma strip_nonblank_head:
  "s \<noteq> [] \<Longrightarrow> hd s \<noteq> space \<Longrightarrow> hd s \<noteq> tab \<Longrightarrow> stripLeadingWhitespace s = s"
  by (cases s) auto

lemma nextField_closed_quote:
  assumes "dquote \<notin> set a"
  shows "nextField (dquote # a @ dquote # b) = (a, stripLeadingWhitespace b)"
proof -
  have "rangeFind (\<lambda>c. c = dquote) (a @ dquote # b) = Some (length a)"
    using assms by (intro rangeFind_append) auto
  then show ?thesis
    by (simp add: nextField_def slice_def sliceFrom_def)
qed

lemma nextField_open_quote:
  assumes "dquote \<notin> set r"
  shows "nextField (dquote # r) = (r, [])"
proof -
  have "rangeFind (\<lambda>c. c = dquote) r = None"
    using assms by (auto simp: rangeFind_None)
  then show ?thesis
    by (simp add: nextField_def sliceFrom_def)
qed

lemma nextField_plain_word:
  assumes "w \<noteq> []" "hd w \<noteq> dquote" "\<forall>c \<in> set w. c \<noteq> space \<and> c \<noteq> tab"
  shows "nextField w = (w, [])"
proof -
  have "rangeFind (\<lambda>c. c = space \<or> c = tab) w = None"
    using assms(3) by (auto simp: rangeFind_None)
  moreover have "w ! 0 \<noteq> dquote"
    using assms(1,2) by (cases w) auto
  ultimately show ?thesis
    by (simp add: nextField_def)
qed

lemma nextField_blank_head:
  assumes "s \<noteq> []" "hd s = space \<or> hd s = tab"
  shows "nextField s = ([], stripLeadingWhitespace s)"
  using assms by (cases s) (auto simp: nextField_def slice_def sliceFrom_def)

lemma strip_idem:
  "stripLeadingWhitespace (stripLeadingWhitespace s) = stripLeadingWhitespace s"
  by (induction s) auto

lemma nextField_remainder_stripped:
  "stripLeadingWhitespace (snd (nextField s)) = snd (nextField s)"
  by (simp add: nextField_def strip_idem split: option.splits)

text \<open>
  C7: for a string that begins with a double quote, \<open>nextField\<close> returns the text between
  the opening quote and the next quote as the field, and the text after that quote with
  its leading whitespace stripped as the remainder; without a closing quote it returns the
  rest of the string as the field and the empty remainder. Every such string has one of
  the two forms below, and \<open>nextField\<close> has a result for both. The third part is the
  example of the spec, \<open>"a b" c\<close>.
\<close>

theorem nextField_quoted:
  "(dquote \<notin> set a \<longrightarrow>
      nextField (dquote # a @ dquote # b) = (a, stripLeadingWhitespace b)) \<and>
   (dquote \<notin> set r \<longrightarrow> nextField (dquote # r) = (r, [])) \<and>
   nextField (dquote # ''a b'' @ dquote # '' c'') = (''a b'', ''c'')"
proof (intro conjI impI)
  assume "dquote \<notin> set a"
  then show "nextField (dquote # a @ dquote # b) = (a, stripLeadingWhitespace b)"
    by (rule nextField_closed_quote)
next
  assume "dquote \<notin> set r"
  then show "nextField (dquote # r) = (r, [])"
    by (rule nextField_open_quote)
next
  have "dquote \<notin> set ''a b''" by simp
  then have "nextField (dquote # ''a b'' @ dquote # '' c'')
      = (''a b'', stripLeadingWhitespace '' c'')"
    by (rule nextField_closed_quote)
  then show "nextField (dquote # ''a b'' @ dquote # '' c'') = (''a b'', ''c'')"
    by simp
qed

theorem nextField_quoted_witness:
  "dquote \<notin> set ''x y'' \<and>
   nextField (dquote # ''x y'' @ dquote # ''  z'') = (''x y'', ''z'') \<and>
   dquote \<notin> set ''x y  z'' \<and>
   nextField (dquote # ''x y  z'') = (''x y  z'', [])"
  using nextField_quoted [of "''x y''" "''  z''" "''x y  z''"] by simp

text \<open>
  C6, as the spec states it, fails: \<open>nextField\<close> does not strip leading whitespace. On a
  space followed by the word \<open>a\<close> it returns the empty field.
\<close>

theorem nextField_leading_space_counterexample:
  "fst (nextField '' a'') = [] \<and> fst (nextField '' a'') \<noteq> ''a''"
  by (simp add: nextField_def slice_def sliceFrom_def)

text \<open>
  C6, amended: \<open>nextField\<close> itself does not strip leading whitespace; its callers pass it
  \<open>stripLeadingWhitespace s\<close>. For a string \<open>s\<close> of one or more spaces and tabs followed by
  a word without space, tab or leading double quote, \<open>nextField s\<close> is the empty field with
  the word as remainder, and \<open>nextField (stripLeadingWhitespace s)\<close> is the word with the
  empty remainder.
\<close>

theorem nextField_after_strip:
  assumes "ws \<noteq> []" "\<forall>c \<in> set ws. c = space \<or> c = tab"
    and "w \<noteq> []" "hd w \<noteq> dquote" "\<forall>c \<in> set w. c \<noteq> space \<and> c \<noteq> tab"
  shows "nextField (ws @ w) = ([], w) \<and>
         nextField (stripLeadingWhitespace (ws @ w)) = (w, [])"
proof -
  have w: "stripLeadingWhitespace w = w"
    using assms(3,5) by (intro strip_nonblank_head) (cases w; simp)+
  have strip: "stripLeadingWhitespace (ws @ w) = w"
    using strip_blank_prefix [OF assms(2), of w] w by simp
  have "ws @ w \<noteq> []" "hd (ws @ w) = space \<or> hd (ws @ w) = tab"
    using assms(1,2) by (cases ws; simp)+
  then have "nextField (ws @ w) = ([], stripLeadingWhitespace (ws @ w))"
    by (rule nextField_blank_head)
  moreover have "nextField w = (w, [])"
    using assms(3,4,5) by (rule nextField_plain_word)
  ultimately show ?thesis
    using strip by simp
qed

theorem nextField_after_strip_witness:
  "nextField ('' '' @ [tab] @ ''file'') = ([], ''file'') \<and>
   nextField (stripLeadingWhitespace ('' '' @ [tab] @ ''file'')) = (''file'', [])"
  using nextField_after_strip [of "'' '' @ [tab]" "''file''"] by simp

section \<open>Properties of Lookup\<close>

lemma fieldsOf_Nil: "fieldsOf [] = []"
  by (subst fieldsOf.simps) simp

lemma collectArgs_fieldsOf: "collectArgs args remain = args @ fieldsOf remain"
proof (induction args remain rule: collectArgs.induct)
  case (1 args remain)
  show ?case
  proof (cases "remain = []")
    case True
    then show ?thesis
      by (subst collectArgs.simps, subst fieldsOf.simps) simp
  next
    case False
    with 1 show ?thesis
      by (subst collectArgs.simps, subst fieldsOf.simps) simp
  qed
qed

lemma lookupLoop_command:
  "FindValue field p = Inr (CommandNode c) \<Longrightarrow>
     lookupLoop h p field remain = Inr (CommandNode c, remain)"
  by (subst lookupLoop.simps) simp

lemma lookupLoop_tree:
  "FindValue field p = Inr (TreeNode st) \<Longrightarrow>
     lookupLoop h p field remain =
       (if remain = [] then Inr (TreeNode st, [])
        else lookupLoop h (pt (treeAt h st))
               (fst (nextField remain)) (snd (nextField remain)))"
  by (subst lookupLoop.simps) simp

lemma lookupReaches_Lookup:
  "lookupReaches h t line p field remain \<Longrightarrow> Lookup h t line = lookupFrom h p field remain"
proof (induction rule: lookupReaches.induct)
  case start
  then show ?case
    by (simp add: Lookup_def)
next
  case (descend p field remain st)
  then show ?case
    by (simp add: lookupFrom_def lookupLoop_tree)
qed

lemma strip_blank_only:
  "\<forall>c \<in> set s. c = space \<or> c = tab \<Longrightarrow> stripLeadingWhitespace s = []"
  by (induction s) auto

lemma parentHeap_root:
  "pt (treeAt parentHeap 0) = [(''quit'', CommandNode 1), (''file'', TreeNode 2)]"
  by code_simp

lemma parentHeap_file:
  "pt (treeAt parentHeap 2) =
     [(''open'', TreeNode 3), (''close'', CommandNode 4), (''read'', CommandNode 5)]"
  by code_simp

lemma parentHeap_open:
  "pt (treeAt parentHeap 3) = [(''now'', CommandNode 6), (''later'', CommandNode 7)]"
  by code_simp

text \<open>
  C8: \<open>Lookup\<close> on a line whose first field is empty fails with \<open>ErrNotFound\<close> and
  returns no node; the empty line and the lines of spaces and tabs only are such lines.
\<close>

theorem Lookup_empty_field:
  assumes "fst (nextField (stripLeadingWhitespace line)) = [] \<or>
           (\<forall>c \<in> set line. c = space \<or> c = tab)"
  shows "Lookup h t line = Inl ErrNotFound"
proof -
  have "fst (nextField (stripLeadingWhitespace line)) = []"
    using assms
  proof
    assume "\<forall>c \<in> set line. c = space \<or> c = tab"
    then have "stripLeadingWhitespace line = []"
      by (rule strip_blank_only)
    then show ?thesis
      by (simp add: nextField_def)
  qed
  then show ?thesis
    by (simp add: Lookup_def)
qed

theorem Lookup_empty_field_witness:
  "Lookup parentHeap 0 ('' '' @ [tab] @ '' '') = Inl ErrNotFound \<and>
   Lookup parentHeap 0 [] = Inl ErrNotFound"
  using Lookup_empty_field [of "'' '' @ [tab] @ '' ''" parentHeap 0]
    Lookup_empty_field [of "[]" parentHeap 0]
  by simp

text \<open>
  C1: whenever the loop of \<open>Lookup\<close>, at any depth, resolves the current field to a
  command, \<open>Lookup\<close> returns that command without an error, whatever text remains, and the
  arguments it returns are the fields of the remaining text in their order from the left,
  each read by \<open>nextField\<close>.
\<close>

theorem Lookup_command:
  assumes "lookupReaches h t line p field remain"
    and "FindValue field p = Inr (CommandNode c)"
  shows "Lookup h t line = Inr (CommandNode c, fieldsOf remain)"
  using lookupReaches_Lookup [OF assms(1)] lookupLoop_command [OF assms(2), of h remain]
  by (simp add: lookupFrom_def collectArgs_fieldsOf)

theorem Lookup_command_witness:
  "lookupReaches parentHeap 0 ''file open now x y'' (pt (treeAt parentHeap 3)) ''now'' ''x y'' \<and>
   FindValue ''now'' (pt (treeAt parentHeap 3)) = Inr (CommandNode 6) \<and>
   Lookup parentHeap 0 ''file open now x y'' = Inr (CommandNode 6, [''x'', ''y'']) \<and>
   Lookup parentHeap 0 (''q '' @ [dquote] @ ''a b'' @ [dquote] @ '' c'')
     = Inr (CommandNode 1, [''a b'', ''c''])"
proof -
  have q0: "nextField (''q '' @ [dquote] @ ''a b'' @ [dquote] @ '' c'') =
      (''q'', [dquote] @ ''a b'' @ [dquote] @ '' c'')"
    by code_simp
  have q1: "FindValue ''q'' (pt (treeAt parentHeap 0)) = Inr (CommandNode 1)"
    unfolding parentHeap_root by code_simp
  have q2: "lookupReaches parentHeap 0 (''q '' @ [dquote] @ ''a b'' @ [dquote] @ '' c'')
      (pt (treeAt parentHeap 0)) ''q'' ([dquote] @ ''a b'' @ [dquote] @ '' c'')"
    using lookupReaches.start [of "''q '' @ [dquote] @ ''a b'' @ [dquote] @ '' c''" parentHeap 0]
      q0 by simp
  have q3: "fieldsOf ([dquote] @ ''a b'' @ [dquote] @ '' c'') = [''a b'', ''c'']"
    by code_simp
  have n0: "nextField ''file open now x y'' = (''file'', ''open now x y'')"
    by code_simp
  have n1: "nextField ''open now x y'' = (''open'', ''now x y'')"
    by code_simp
  have n2: "nextField ''now x y'' = (''now'', ''x y'')"
    by code_simp
  have f0: "FindValue ''file'' (pt (treeAt parentHeap 0)) = Inr (TreeNode 2)"
    unfolding parentHeap_root by code_simp
  have f1: "FindValue ''open'' (pt (treeAt parentHeap 2)) = Inr (TreeNode 3)"
    unfolding parentHeap_file by code_simp
  have f2: "FindValue ''now'' (pt (treeAt parentHeap 3)) = Inr (CommandNode 6)"
    unfolding parentHeap_open by code_simp
  have r0: "lookupReaches parentHeap 0 ''file open now x y''
      (pt (treeAt parentHeap 0)) ''file'' ''open now x y''"
    using lookupReaches.start [of "''file open now x y''" parentHeap 0] by (simp add: n0)
  have r1: "lookupReaches parentHeap 0 ''file open now x y''
      (pt (treeAt parentHeap 2)) ''open'' ''now x y''"
    using lookupReaches.descend [OF r0 f0] by (simp add: n1)
  have r2: "lookupReaches parentHeap 0 ''file open now x y''
      (pt (treeAt parentHeap 3)) ''now'' ''x y''"
    using lookupReaches.descend [OF r1 f1] by (simp add: n2)
  have a: "fieldsOf ''x y'' = [''x'', ''y'']"
    by code_simp
  show ?thesis
    using Lookup_command [OF r2 f2] Lookup_command [OF q2 q1] r2 f2 q3 by (simp add: a)
qed

text \<open>
  C2: whenever the loop of \<open>Lookup\<close>, at any depth, resolves the current field to a
  subtree, \<open>Lookup\<close> returns that subtree with no arguments if no text remains; otherwise
  the loop reads the next field of the remaining text and goes on with the prefix tree of
  the subtree, and the result of \<open>Lookup\<close> is the result from there.
\<close>

theorem Lookup_subtree:
  assumes "lookupReaches h t line p field remain"
    and "FindValue field p = Inr (TreeNode st)"
  shows "(remain = [] \<longrightarrow> Lookup h t line = Inr (TreeNode st, [])) \<and>
         (remain \<noteq> [] \<longrightarrow>
            lookupReaches h t line (pt (treeAt h st))
              (fst (nextField remain)) (snd (nextField remain)) \<and>
            Lookup h t line =
              lookupFrom h (pt (treeAt h st))
                (fst (nextField remain)) (snd (nextField remain)))"
proof (intro conjI impI)
  assume "remain = []"
  then show "Lookup h t line = Inr (TreeNode st, [])"
    using lookupReaches_Lookup [OF assms(1)] lookupLoop_tree [OF assms(2), of h remain]
    by (simp add: lookupFrom_def collectArgs_fieldsOf fieldsOf_Nil)
next
  assume r: "remain \<noteq> []"
  show step: "lookupReaches h t line (pt (treeAt h st))
      (fst (nextField remain)) (snd (nextField remain))"
    using assms r by (rule lookupReaches.descend)
  show "Lookup h t line =
      lookupFrom h (pt (treeAt h st)) (fst (nextField remain)) (snd (nextField remain))"
    using step by (rule lookupReaches_Lookup)
qed

theorem Lookup_subtree_witness:
  "lookupReaches parentHeap 0 ''fi open'' (pt (treeAt parentHeap 0)) ''fi'' ''open'' \<and>
   FindValue ''fi'' (pt (treeAt parentHeap 0)) = Inr (TreeNode 2) \<and>
   lookupReaches parentHeap 0 ''fi open'' (pt (treeAt parentHeap 2)) ''open'' [] \<and>
   FindValue ''open'' (pt (treeAt parentHeap 2)) = Inr (TreeNode 3) \<and>
   Lookup parentHeap 0 ''fi open'' = Inr (TreeNode 3, [])"
proof -
  have n0: "nextField ''fi open'' = (''fi'', ''open'')"
    by code_simp
  have n1: "nextField ''open'' = (''open'', [])"
    by code_simp
  have f0: "FindValue ''fi'' (pt (treeAt parentHeap 0)) = Inr (TreeNode 2)"
    unfolding parentHeap_root by code_simp
  have f1: "FindValue ''open'' (pt (treeAt parentHeap 2)) = Inr (TreeNode 3)"
    unfolding parentHeap_file by code_simp
  have r0: "lookupReaches parentHeap 0 ''fi open'' (pt (treeAt parentHeap 0)) ''fi'' ''open''"
    using lookupReaches.start [of "''fi open''" parentHeap 0] by (simp add: n0)
  have r1: "lookupReaches parentHeap 0 ''fi open'' (pt (treeAt parentHeap 2)) ''open'' []"
    using Lookup_subtree [OF r0 f0] by (simp add: n1)
  show ?thesis
    using Lookup_subtree [OF r1 f1] r0 f0 r1 f1 by simp
qed

section \<open>Properties of Autocomplete\<close>

lemma autocompleteLoop_descend:
  assumes "FindKeyValues field p = [(key, TreeNode st)]"
    and "\<not> (remain = [] \<and> field \<noteq> TreeDescriptor.Name (Tree.descriptor (treeAt h st)))"
  shows "autocompleteLoop h p pre field remain =
         autocompleteLoop h (pt (treeAt h st)) (pre @ key @ [space])
           (fst (nextField remain)) (snd (nextField remain))"
  using assms by (subst autocompleteLoop.simps) (auto simp: Let_def)

lemma autocompleteLoop_many:
  assumes "length (FindKeyValues field p) > 1"
  shows "autocompleteLoop h p pre field remain =
         Some (if remain \<noteq> [] then [] else map (\<lambda>m. pre @ fst m) (FindKeyValues field p))"
  using assms by (subst autocompleteLoop.simps) (simp add: Let_def)

lemma autocompleteReaches_Autocomplete:
  "autocompleteReaches h t line p pre field remain \<Longrightarrow>
     Autocomplete h t line = autocompleteLoop h p pre field remain"
proof (induction rule: autocompleteReaches.induct)
  case start
  show ?case
    by (simp add: Autocomplete_def)
next
  case (descend p pre field remain key st)
  then show ?case
    by (simp add: autocompleteLoop_descend)
qed

lemma append_le_mono: "(xs :: string) \<le> ys \<Longrightarrow> pre @ xs \<le> pre @ ys"
  by (induction pre) simp_all

lemma sorted_map_append:
  "sorted (map fst (kvs :: (string \<times> 'v) list)) \<Longrightarrow> sorted (map (\<lambda>m. pre @ fst m) kvs)"
  by (induction kvs) (auto simp: append_le_mono)

lemma FindKeyValues_sorted: "sorted (map fst (FindKeyValues q p))"
  by (simp add: FindKeyValues_def)

text \<open>
  C5: whenever the loop of \<open>Autocomplete\<close>, at any depth, finds more than one candidate
  for the current field, \<open>Autocomplete\<close> returns the empty list if text remains after the
  field, and otherwise every candidate key with the accumulated path in front, and that
  list is sorted in the lexicographic order of the full paths.
\<close>

theorem Autocomplete_ambiguous:
  assumes "autocompleteReaches h t line p pre field remain"
    and "length (FindKeyValues field p) > 1"
  shows "Autocomplete h t line =
           Some (if remain \<noteq> [] then []
                 else map (\<lambda>m. pre @ fst m) (FindKeyValues field p)) \<and>
         sorted (map (\<lambda>m. pre @ fst m) (FindKeyValues field p))"
proof (intro conjI)
  show "Autocomplete h t line =
      Some (if remain \<noteq> [] then [] else map (\<lambda>m. pre @ fst m) (FindKeyValues field p))"
    using autocompleteReaches_Autocomplete [OF assms(1)] autocompleteLoop_many [OF assms(2), of h pre remain]
    by simp
  show "sorted (map (\<lambda>m. pre @ fst m) (FindKeyValues field p))"
    using FindKeyValues_sorted by (rule sorted_map_append)
qed

lemma parentHeap_file_name:
  "TreeDescriptor.Name (Tree.descriptor (treeAt parentHeap 2)) = ''file''"
  by code_simp

theorem Autocomplete_ambiguous_witness:
  "autocompleteReaches parentHeap 0 ''file'' (pt (treeAt parentHeap 2)) ''file '' [] [] \<and>
   length (FindKeyValues [] (pt (treeAt parentHeap 2))) = 3 \<and>
   Autocomplete parentHeap 0 ''file'' = Some [''file close'', ''file open'', ''file read''] \<and>
   autocompleteReaches parentHeap 0 (''file '' @ [dquote, dquote] @ '' x'')
     (pt (treeAt parentHeap 2)) ''file '' [] ''x'' \<and>
   Autocomplete parentHeap 0 (''file '' @ [dquote, dquote] @ '' x'') = Some []"
proof -
  have n0: "nextField ''file'' = (''file'', [])"
    by code_simp
  have n1: "nextField [] = ([], [])"
    by code_simp
  have m0: "nextField (''file '' @ [dquote, dquote] @ '' x'') =
      (''file'', [dquote, dquote] @ '' x'')"
    by code_simp
  have m1: "nextField ([dquote, dquote] @ '' x'') = ([], ''x'')"
    by code_simp
  have k0: "FindKeyValues ''file'' (pt (treeAt parentHeap 0)) = [(''file'', TreeNode 2)]"
    unfolding parentHeap_root by code_simp
  have k1: "FindKeyValues [] (pt (treeAt parentHeap 2)) =
      [(''close'', CommandNode 4), (''open'', TreeNode 3), (''read'', CommandNode 5)]"
    unfolding parentHeap_file by code_simp
  have many: "length (FindKeyValues [] (pt (treeAt parentHeap 2))) > 1"
    by (simp add: k1)
  have r0: "autocompleteReaches parentHeap 0 ''file'' (pt (treeAt parentHeap 0)) [] ''file'' []"
    using autocompleteReaches.start [of parentHeap 0 "''file''"] by (simp add: n0)
  have r1: "autocompleteReaches parentHeap 0 ''file'' (pt (treeAt parentHeap 2)) ''file '' [] []"
    using autocompleteReaches.descend [OF r0 k0] by (simp add: parentHeap_file_name n1)
  have s0: "autocompleteReaches parentHeap 0 (''file '' @ [dquote, dquote] @ '' x'')
      (pt (treeAt parentHeap 0)) [] ''file'' ([dquote, dquote] @ '' x'')"
    using autocompleteReaches.start [of parentHeap 0 "''file '' @ [dquote, dquote] @ '' x''"]
      m0 by simp
  have s1: "autocompleteReaches parentHeap 0 (''file '' @ [dquote, dquote] @ '' x'')
      (pt (treeAt parentHeap 2)) ''file '' [] ''x''"
    using autocompleteReaches.descend [OF s0 k0] m1 by simp
  show ?thesis
    using Autocomplete_ambiguous [OF r1 many] Autocomplete_ambiguous [OF s1 many] r1 s1
    by (simp add: k1)
qed

section \<open>Properties of the shortcut list\<close>

lemma searchLoop_bounds: "i \<le> j \<Longrightarrow> i \<le> searchLoop f i j \<and> searchLoop f i j \<le> j"
proof (induction f i j rule: searchLoop.induct)
  case (1 f i j)
  show ?case
  proof (cases "i < j")
    case False
    then have "searchLoop f i j = i"
      by (subst searchLoop.simps) simp
    then show ?thesis
      using "1.prems" by simp
  next
    case True
    define m where "m = (i + j) div 2"
    have m: "i \<le> m" "m < j"
      using True by (simp_all add: m_def)
    show ?thesis
    proof (cases "f m")
      case True
      have "i \<le> searchLoop f i m \<and> searchLoop f i m \<le> m"
        using "1.IH"(2) [of m] \<open>i < j\<close> True m by (simp add: m_def)
      moreover have "searchLoop f i j = searchLoop f i m"
        using \<open>i < j\<close> True by (subst searchLoop.simps) (simp add: m_def Let_def)
      ultimately show ?thesis
        using m by simp
    next
      case False
      have "m + 1 \<le> searchLoop f (m + 1) j \<and> searchLoop f (m + 1) j \<le> j"
        using "1.IH"(1) [of m] \<open>i < j\<close> False m by (simp add: m_def)
      moreover have "searchLoop f i j = searchLoop f (m + 1) j"
        using \<open>i < j\<close> False by (subst searchLoop.simps) (simp add: m_def Let_def)
      ultimately show ?thesis
        using m by simp
    qed
  qed
qed

lemma searchLoop_partition:
  assumes "i \<le> j" "j \<le> n"
    and "\<forall>a b. a \<le> b \<and> b < n \<and> f a \<longrightarrow> f b"
    and "\<forall>k<i. \<not> f k"
    and "\<forall>k. j \<le> k \<and> k < n \<longrightarrow> f k"
  shows "(\<forall>k < searchLoop f i j. \<not> f k) \<and> (\<forall>k. searchLoop f i j \<le> k \<and> k < n \<longrightarrow> f k)"
  using assms
proof (induction f i j rule: searchLoop.induct)
  case (1 f i j)
  show ?case
  proof (cases "i < j")
    case False
    then have "searchLoop f i j = i"
      by (subst searchLoop.simps) simp
    moreover have "i = j"
      using False "1.prems"(1) by simp
    ultimately show ?thesis
      using "1.prems"(4,5) by simp
  next
    case True
    define m where "m = (i + j) div 2"
    have m: "i \<le> m" "m < j" "m < n"
      using True "1.prems"(2) by (simp_all add: m_def)
    show ?thesis
    proof (cases "f m")
      case fm: True
      have up: "\<forall>k. m \<le> k \<and> k < n \<longrightarrow> f k"
        using fm "1.prems"(3) by blast
      have "(\<forall>k < searchLoop f i m. \<not> f k) \<and> (\<forall>k. searchLoop f i m \<le> k \<and> k < n \<longrightarrow> f k)"
      proof (rule "1.IH"(2) [of m])
        show "i < j" by (rule True)
        show "m = (i + j) div 2" by (rule m_def)
        show "\<not> \<not> f m" using fm by simp
        show "i \<le> m" by (rule m(1))
        show "m \<le> n" using m(3) by simp
        show "\<forall>a b. a \<le> b \<and> b < n \<and> f a \<longrightarrow> f b" by (rule "1.prems"(3))
        show "\<forall>k<i. \<not> f k" by (rule "1.prems"(4))
        show "\<forall>k. m \<le> k \<and> k < n \<longrightarrow> f k" by (rule up)
      qed
      moreover have "searchLoop f i j = searchLoop f i m"
        using True fm by (subst searchLoop.simps) (simp add: m_def Let_def)
      ultimately show ?thesis
        by simp
    next
      case nfm: False
      have low: "\<forall>k < m + 1. \<not> f k"
      proof (intro allI impI)
        fix k assume "k < m + 1"
        then have "k \<le> m" by simp
        then show "\<not> f k"
          using nfm m(3) "1.prems"(3) by blast
      qed
      have "(\<forall>k < searchLoop f (m + 1) j. \<not> f k) \<and>
            (\<forall>k. searchLoop f (m + 1) j \<le> k \<and> k < n \<longrightarrow> f k)"
      proof (rule "1.IH"(1) [of m])
        show "i < j" by (rule True)
        show "m = (i + j) div 2" by (rule m_def)
        show "\<not> f m" by (rule nfm)
        show "m + 1 \<le> j" using m(2) by simp
        show "j \<le> n" by (rule "1.prems"(2))
        show "\<forall>a b. a \<le> b \<and> b < n \<and> f a \<longrightarrow> f b" by (rule "1.prems"(3))
        show "\<forall>k<m + 1. \<not> f k" by (rule low)
        show "\<forall>k. j \<le> k \<and> k < n \<longrightarrow> f k" by (rule "1.prems"(5))
      qed
      moreover have "searchLoop f i j = searchLoop f (m + 1) j"
        using True nfm by (subst searchLoop.simps) (simp add: m_def Let_def)
      ultimately show ?thesis
        by simp
    qed
  qed
qed

lemma SearchStrings_le: "SearchStrings a x \<le> length a"
  using searchLoop_bounds [of 0 "length a" "\<lambda>i. a ! i \<ge> x"]
  by (simp add: SearchStrings_def Search_def)

lemma SearchStrings_partition:
  assumes "sorted a"
  shows "(\<forall>k < SearchStrings a x. a ! k < x) \<and>
         (\<forall>k. SearchStrings a x \<le> k \<and> k < length a \<longrightarrow> x \<le> a ! k)"
proof -
  have mono: "\<forall>i j. i \<le> j \<and> j < length a \<and> x \<le> a ! i \<longrightarrow> x \<le> a ! j"
    using assms by (auto simp: sorted_iff_nth_mono intro: order_trans)
  have "(\<forall>k < searchLoop (\<lambda>i. x \<le> a ! i) 0 (length a). \<not> x \<le> a ! k) \<and>
        (\<forall>k. searchLoop (\<lambda>i. x \<le> a ! i) 0 (length a) \<le> k \<and> k < length a \<longrightarrow> x \<le> a ! k)"
    using mono by (intro searchLoop_partition) auto
  then show ?thesis
    by (simp add: SearchStrings_def Search_def not_le)
qed

lemma insert_by_copy:
  assumes "i \<le> length xs"
  shows "(copyWithin (xs @ [e]) (i + 1) i)[i := x] = take i xs @ x # drop i xs"
proof -
  define front where "front = take (i + 1) (xs @ [e])"
  have n: "min (length (xs @ [e]) - (i + 1)) (length (xs @ [e]) - i) = length xs - i"
    by simp
  have src: "take (length xs - i) (drop i (xs @ [e])) = drop i xs"
    using assms by simp
  have rest: "drop (i + 1 + (length xs - i)) (xs @ [e]) = []"
    using assms by simp
  have copied: "copyWithin (xs @ [e]) (i + 1) i = front @ drop i xs"
    unfolding copyWithin_def Let_def n src rest front_def by simp
  have front: "front[i := x] = take i xs @ [x]"
  proof (cases "i < length xs")
    case True
    then show ?thesis
      by (simp add: front_def take_Suc_conv_app_nth list_update_append)
  next
    case False
    then have "i = length xs"
      using assms by simp
    then show ?thesis
      by (simp add: front_def)
  qed
  have len: "i < length front"
    using assms by (simp add: front_def)
  have "(front @ drop i xs)[i := x] = front[i := x] @ drop i xs"
    using len by (simp add: list_update_append1)
  then show ?thesis
    unfolding copied front by simp
qed

lemma insort_at_partition:
  assumes "r \<le> length xs"
    and "\<forall>k<r. xs ! k < (x :: string)"
    and "\<forall>k. r \<le> k \<and> k < length xs \<longrightarrow> x \<le> xs ! k"
  shows "take r xs @ x # drop r xs = insort x xs"
  using assms
proof (induction xs arbitrary: r)
  case Nil
  then show ?case by simp
next
  case (Cons y ys)
  show ?case
  proof (cases r)
    case 0
    then have "x \<le> y"
      using Cons.prems(3) by auto
    with 0 show ?thesis by simp
  next
    case (Suc r')
    then have "y < x"
      using Cons.prems(2) by auto
    then have "\<not> x \<le> y"
      by simp
    moreover have "take r' ys @ x # drop r' ys = insort x ys"
      using Cons.prems Suc by (intro Cons.IH) auto
    ultimately show ?thesis
      using Suc by simp
  qed
qed

lemma shortcut_insert_insort:
  assumes "sorted xs"
  shows "(copyWithin (xs @ [e]) (SearchStrings xs x + 1) (SearchStrings xs x))
           [SearchStrings xs x := x] = insort x xs"
proof -
  define r where "r = SearchStrings xs x"
  have le: "r \<le> length xs"
    unfolding r_def by (rule SearchStrings_le)
  have part: "\<forall>k<r. xs ! k < x" "\<forall>k. r \<le> k \<and> k < length xs \<longrightarrow> x \<le> xs ! k"
    using SearchStrings_partition [OF assms, of x] unfolding r_def by simp_all
  have "(copyWithin (xs @ [e]) (r + 1) r)[r := x] = take r xs @ x # drop r xs"
    using le by (rule insert_by_copy)
  also have "\<dots> = insort x xs"
    using le part by (rule insort_at_partition)
  finally show ?thesis
    unfolding r_def .
qed

lemma AddShortcut_command:
  assumes "length (Fields sc) = 1" "LookupCommand h t tgt = Inr (c, args)"
  shows "fst (AddShortcut h t sc tgt) = None"
    and "commandAt (snd (AddShortcut h t sc tgt)) =
           (commandAt h)(c := (commandAt h c)
              \<lparr>shortcuts :=
                 (copyWithin (shortcuts (commandAt h c) @ [''''])
                    (SearchStrings (shortcuts (commandAt h c)) sc + 1)
                    (SearchStrings (shortcuts (commandAt h c)) sc))
                 [SearchStrings (shortcuts (commandAt h c)) sc := sc]\<rparr>)"
    and "treeAt (snd (AddShortcut h t sc tgt)) =
           (treeAt h)(t := (treeAt h t)\<lparr>pt := Add sc (CommandNode c) (pt (treeAt h t))\<rparr>)"
  using assms by (simp_all add: AddShortcut_def Let_def)

lemma AddShortcut_error:
  "fst (AddShortcut h t sc tgt) \<noteq> None \<Longrightarrow> snd (AddShortcut h t sc tgt) = h"
  by (auto simp: AddShortcut_def Let_def split: sum.splits)

lemma AddShortcut_sorted:
  assumes "shortcutsSorted h"
  shows "shortcutsSorted (snd (AddShortcut h t sc tgt))"
proof (cases "length (Fields sc) = 1")
  case False
  then show ?thesis
    using assms by (simp add: AddShortcut_def)
next
  case one: True
  show ?thesis
  proof (cases "LookupCommand h t tgt")
    case (Inl e)
    then show ?thesis
      using assms one by (simp add: AddShortcut_def)
  next
    case (Inr r)
    obtain c args where r: "r = (c, args)"
      by (cases r)
    have old: "sorted (shortcuts (commandAt h c))"
      using assms by (simp add: shortcutsSorted_def)
    have "sorted (insort sc (shortcuts (commandAt h c)))"
      using old by (simp add: sorted_insort)
    then show ?thesis
      using assms AddShortcut_command(2) [OF one Inr [unfolded r]]
        shortcut_insert_insort [OF old, of "[]" sc]
      by (simp add: shortcutsSorted_def)
  qed
qed

lemma applyCall_sorted:
  assumes "shortcutsSorted h"
  shows "shortcutsSorted (applyCall h call)"
proof (cases call)
  case (CallNewTree d)
  then show ?thesis
    using assms by (simp add: NewTree_def shortcutsSorted_def Let_def)
next
  case (CallAddCommand t d)
  then show ?thesis
    using assms by (simp add: AddCommand_def shortcutsSorted_def Let_def)
next
  case (CallAddSubtree t d)
  then show ?thesis
    using assms by (simp add: AddSubtree_def shortcutsSorted_def Let_def)
next
  case (CallAddShortcut t sc tgt)
  then show ?thesis
    using AddShortcut_sorted [OF assms] by simp
qed

lemma applyCalls_sorted:
  "shortcutsSorted h \<Longrightarrow> shortcutsSorted (applyCalls h calls)"
  by (induction calls arbitrary: h) (simp_all add: applyCall_sorted)

text \<open>
  C9: from a store in which every shortcut list is sorted, as it is in the empty store and
  for every new command, every sequence of registration calls leaves every shortcut list
  sorted, so the invariant holds between any two calls. A call of \<open>AddShortcut\<close> that
  succeeds puts the shortcut into the list of its command at its sorted position.
\<close>

theorem shortcuts_stay_sorted:
  assumes "shortcutsSorted h"
  shows "shortcutsSorted (applyCalls h calls) \<and>
         (length (Fields sc) = 1 \<and> LookupCommand h t tgt = Inr (c, args) \<longrightarrow>
            fst (AddShortcut h t sc tgt) = None \<and>
            shortcuts (commandAt (snd (AddShortcut h t sc tgt)) c) =
              insort sc (shortcuts (commandAt h c)))"
proof (intro conjI impI)
  show "shortcutsSorted (applyCalls h calls)"
    using assms by (rule applyCalls_sorted)
next
  assume ok: "length (Fields sc) = 1 \<and> LookupCommand h t tgt = Inr (c, args)"
  then show "fst (AddShortcut h t sc tgt) = None"
    by (simp add: AddShortcut_command(1))
  have old: "sorted (shortcuts (commandAt h c))"
    using assms by (simp add: shortcutsSorted_def)
  show "shortcuts (commandAt (snd (AddShortcut h t sc tgt)) c) =
      insort sc (shortcuts (commandAt h c))"
    using ok AddShortcut_command(2) [of sc h t tgt c args]
      shortcut_insert_insort [OF old, of "[]" sc]
    by simp
qed

theorem shortcuts_stay_sorted_witness:
  "shortcutsSorted (applyCalls emptyHeap parentCalls) \<and>
   shortcutsSorted (applyCalls parentHeap
     [CallAddShortcut 0 ''zz'' ''file close'', CallAddShortcut 0 ''dd'' ''file close'',
      CallAddShortcut 0 ''xx'' ''file close'']) \<and>
   LookupCommand parentHeap 0 ''file close'' = Inr (4, []) \<and>
   fst (AddShortcut parentHeap 0 ''zz'' ''file close'') = None \<and>
   shortcuts (commandAt (snd (AddShortcut parentHeap 0 ''zz'' ''file close'')) 4) = [''zz''] \<and>
   shortcuts (commandAt (applyCalls parentHeap
     [CallAddShortcut 0 ''zz'' ''file close'', CallAddShortcut 0 ''dd'' ''file close'',
      CallAddShortcut 0 ''xx'' ''file close'']) 4) = [''dd'', ''xx'', ''zz'']"
proof -
  have e: "shortcutsSorted emptyHeap"
    by (simp add: shortcutsSorted_def emptyHeap_def)
  have p: "shortcutsSorted parentHeap"
    using shortcuts_stay_sorted [OF e, of parentCalls] by (simp add: parentHeap_def)
  have f: "length (Fields ''zz'') = 1"
    by code_simp
  have l: "LookupCommand parentHeap 0 ''file close'' = Inr (4, [])"
    by code_simp
  have old: "shortcuts (commandAt parentHeap 4) = []"
    by code_simp
  have final: "shortcuts (commandAt (applyCalls parentHeap
     [CallAddShortcut 0 ''zz'' ''file close'', CallAddShortcut 0 ''dd'' ''file close'',
      CallAddShortcut 0 ''xx'' ''file close'']) 4) = [''dd'', ''xx'', ''zz'']"
    by code_simp
  show ?thesis
    using shortcuts_stay_sorted [OF e, of parentCalls]
      shortcuts_stay_sorted [OF p, of "[CallAddShortcut 0 ''zz'' ''file close'',
        CallAddShortcut 0 ''dd'' ''file close'', CallAddShortcut 0 ''xx'' ''file close'']"
        "''zz''" 0 "''file close''" 4 "[]"]
      f l old final
    by simp
qed

section \<open>Properties of AddShortcut\<close>

lemma spaceWidth_le: "spaceWidth s \<le> length s"
  by (simp add: spaceWidth_def split: list.splits)

lemma spaceWidth_blank: "c = space \<or> c = tab \<Longrightarrow> spaceWidth (c # v) = 1"
  by (auto simp: spaceWidth_def)

lemma spaceWidth_append_blank:
  assumes "u \<noteq> []" "c = space \<or> c = tab"
  shows "spaceWidth (u @ c # v) = spaceWidth u"
proof (cases u)
  case Nil
  with assms(1) show ?thesis by simp
next
  case (Cons x r)
  show ?thesis
  proof (cases r)
    case Nil
    with Cons assms(2) show ?thesis
      by (auto simp: spaceWidth_def split: list.splits)
  next
    case r: (Cons y r')
    show ?thesis
    proof (cases r')
      case Nil
      with Cons r assms(2) show ?thesis
        by (auto simp: spaceWidth_def)
    next
      case (Cons z r'')
      with \<open>u = x # r\<close> r show ?thesis
        by (simp add: spaceWidth_def)
    qed
  qed
qed

lemma fieldsFrom_blank_split:
  assumes "c = space \<or> c = tab"
  shows "fieldsFrom cur (u @ c # v) = fieldsFrom cur u @ fieldsFrom [] v"
proof (induction cur u rule: fieldsFrom.induct)
  case (1 cur u)
  show ?case
  proof (cases "u = []")
    case True
    have "fieldsFrom cur (c # v) = (if cur = [] then [] else [cur]) @ fieldsFrom [] v"
      using assms by (subst fieldsFrom.simps) (simp add: spaceWidth_blank)
    moreover have "fieldsFrom cur [] = (if cur = [] then [] else [cur])"
      by (subst fieldsFrom.simps) simp
    ultimately show ?thesis
      using True by simp
  next
    case False
    have w: "spaceWidth (u @ c # v) = spaceWidth u"
      using False assms by (rule spaceWidth_append_blank)
    show ?thesis
    proof (cases "spaceWidth u = 0")
      case True
      have "fieldsFrom cur (u @ c # v) = fieldsFrom (cur @ [hd u]) (tl u @ c # v)"
        using False True w by (subst fieldsFrom.simps) simp
      also have "\<dots> = fieldsFrom (cur @ [hd u]) (tl u) @ fieldsFrom [] v"
        using False True by (rule "1.IH"(1))
      also have "fieldsFrom (cur @ [hd u]) (tl u) = fieldsFrom cur u"
        using False True by (subst (2) fieldsFrom.simps) simp
      finally show ?thesis .
    next
      case pos: False
      have le: "spaceWidth u \<le> length u"
        by (rule spaceWidth_le)
      have "fieldsFrom cur (u @ c # v) =
          (if cur = [] then [] else [cur]) @ fieldsFrom [] (drop (spaceWidth u) u @ c # v)"
        using False pos w le by (subst fieldsFrom.simps) simp
      also have "fieldsFrom [] (drop (spaceWidth u) u @ c # v) =
          fieldsFrom [] (drop (spaceWidth u) u) @ fieldsFrom [] v"
        using False pos by (rule "1.IH"(2))
      also have "(if cur = [] then [] else [cur]) @
          fieldsFrom [] (drop (spaceWidth u) u) @ fieldsFrom [] v = fieldsFrom cur u @ fieldsFrom [] v"
        using False pos by (subst (3) fieldsFrom.simps) simp
      finally show ?thesis .
    qed
  qed
qed

lemma Fields_blank_split:
  "c = space \<or> c = tab \<Longrightarrow> Fields (u @ c # v) = Fields u @ Fields v"
  by (simp add: Fields_def fieldsFrom_blank_split)

lemma Fields_Nil: "Fields [] = []"
  by (simp add: Fields_def fieldsFrom.simps)

lemma Fields_blank_only: "\<forall>c \<in> set s. c = space \<or> c = tab \<Longrightarrow> Fields s = []"
proof (induction s)
  case Nil
  show ?case by (rule Fields_Nil)
next
  case (Cons c s)
  then have "Fields ([] @ c # s) = Fields [] @ Fields s"
    by (intro Fields_blank_split) simp
  with Cons show ?case
    by (simp add: Fields_Nil)
qed

text \<open>
  C10: \<open>AddShortcut\<close> with a shortcut that is not exactly one field returns an error and
  leaves the store as it was, so no prefix tree and no shortcut list changes. The empty
  string, a string of spaces and tabs only, and a string with a space or tab between two
  parts that each hold a field are such shortcuts.
\<close>

theorem AddShortcut_invalid:
  assumes "length (Fields shortcut) \<noteq> 1 \<or> shortcut = [] \<or>
           (\<forall>c \<in> set shortcut. c = space \<or> c = tab) \<or>
           (\<exists>u c v. shortcut = u @ c # v \<and> (c = space \<or> c = tab) \<and>
              Fields u \<noteq> [] \<and> Fields v \<noteq> [])"
  shows "AddShortcut h t shortcut target = (Some ErrInvalidShortcut, h)"
proof -
  consider (count) "length (Fields shortcut) \<noteq> 1"
    | (empty) "shortcut = []"
    | (blank) "\<forall>c \<in> set shortcut. c = space \<or> c = tab"
    | (interior) u c v where "shortcut = u @ c # v" "c = space \<or> c = tab"
        "Fields u \<noteq> []" "Fields v \<noteq> []"
    using assms by blast
  then have "length (Fields shortcut) \<noteq> 1"
  proof cases
    case count
    then show ?thesis .
  next
    case empty
    then show ?thesis by (simp add: Fields_Nil)
  next
    case blank
    then show ?thesis by (simp add: Fields_blank_only)
  next
    case interior
    then have "Fields shortcut = Fields u @ Fields v"
      by (simp add: Fields_blank_split)
    with interior(3,4) show ?thesis
      by (cases "Fields u"; cases "Fields v") simp_all
  qed
  then show ?thesis
    by (simp add: AddShortcut_def)
qed

theorem AddShortcut_invalid_witness:
  "AddShortcut parentHeap 0 [] ''quit'' = (Some ErrInvalidShortcut, parentHeap) \<and>
   AddShortcut parentHeap 0 ('' '' @ [tab]) ''quit'' = (Some ErrInvalidShortcut, parentHeap) \<and>
   Fields ''q'' \<noteq> [] \<and> Fields ''x'' \<noteq> [] \<and>
   AddShortcut parentHeap 0 ''q x'' ''quit'' = (Some ErrInvalidShortcut, parentHeap) \<and>
   length (Fields (''a'' @ [CHR 0x0A] @ ''b'')) = 2 \<and>
   AddShortcut parentHeap 0 (''a'' @ [CHR 0x0A] @ ''b'') ''quit''
     = (Some ErrInvalidShortcut, parentHeap)"
proof -
  have q: "Fields ''q'' \<noteq> []" and x: "Fields ''x'' \<noteq> []"
    by code_simp+
  have two: "length (Fields (''a'' @ [CHR 0x0A] @ ''b'')) = 2"
    by code_simp
  have split: "\<exists>u c v. ''q x'' = u @ c # v \<and> (c = space \<or> c = tab) \<and>
      Fields u \<noteq> [] \<and> Fields v \<noteq> []"
    using q x by (intro exI [of _ "''q''"] exI [of _ space] exI [of _ "''x''"]) simp
  show ?thesis
    using AddShortcut_invalid [of "[]" parentHeap 0 "''quit''"]
      AddShortcut_invalid [of "'' '' @ [tab]" parentHeap 0 "''quit''"]
      AddShortcut_invalid [of "''q x''" parentHeap 0 "''quit''"]
      AddShortcut_invalid [of "''a'' @ [CHR 0x0A] @ ''b''" parentHeap 0 "''quit''"]
      q x two split
    by simp
qed

lemma FindValue_exact: "q \<noteq> [] \<Longrightarrow> map_of p q = Some v \<Longrightarrow> FindValue q p = Inr v"
  by (simp add: FindValue_def)

lemma map_of_Add_old: "map_of p k = Some v \<Longrightarrow> map_of (Add k' v' p) k = Some v"
  by (simp add: Add_def)

lemma map_of_Add_new:
  assumes "k \<notin> fst ` set p"
  shows "map_of (Add k v p) k = Some v"
proof -
  have "map_of p k = None"
    using assms by (simp add: map_of_eq_None_iff)
  then show ?thesis
    by (simp add: Add_def map_add_def)
qed

lemma Lookup_first_command:
  assumes "nextField (stripLeadingWhitespace line) = (field, remain)" "field \<noteq> []"
    and "FindValue field (pt (treeAt h t)) = Inr (CommandNode c)"
  shows "Lookup h t line = Inr (CommandNode c, fieldsOf remain)"
  using assms lookupLoop_command [OF assms(3), of h remain]
  by (simp add: Lookup_def lookupFrom_def collectArgs_fieldsOf)

lemma Lookup_second_command:
  assumes "nextField (stripLeadingWhitespace line) = (field, remain)" "field \<noteq> []"
    and "FindValue field (pt (treeAt h t)) = Inr (TreeNode st)" "remain \<noteq> []"
    and "nextField remain = (field', remain')"
    and "FindValue field' (pt (treeAt h st)) = Inr (CommandNode c)"
  shows "Lookup h t line = Inr (CommandNode c, fieldsOf remain')"
  using assms lookupLoop_tree [OF assms(3), of h remain]
    lookupLoop_command [OF assms(6), of h remain']
  by (simp add: Lookup_def lookupFrom_def collectArgs_fieldsOf)

text \<open>
  C3: in every store in which the tree \<open>t\<close> holds the subtree \<open>file\<close> and that subtree
  holds the command \<open>open\<close>, and \<open>f\<close> is not yet a key of \<open>t\<close> (the spec leaves adding a
  stored key undefined), \<open>AddShortcut("f", "file open")\<close> succeeds, and afterwards
  \<open>Lookup("f a b")\<close> and \<open>Lookup("file open a b")\<close> on \<open>t\<close> both return the command \<open>open\<close>
  with the arguments \<open>a\<close> and \<open>b\<close>.
\<close>

theorem shortcut_same_command:
  assumes "map_of (pt (treeAt h t)) ''file'' = Some (TreeNode fa)"
    and "map_of (pt (treeAt h fa)) ''open'' = Some (CommandNode oa)"
    and "''f'' \<notin> fst ` set (pt (treeAt h t))"
  shows "fst (AddShortcut h t ''f'' ''file open'') = None \<and>
         Lookup (snd (AddShortcut h t ''f'' ''file open'')) t ''f a b''
           = Inr (CommandNode oa, [''a'', ''b'']) \<and>
         Lookup (snd (AddShortcut h t ''f'' ''file open'')) t ''file open a b''
           = Inr (CommandNode oa, [''a'', ''b''])"
proof -
  define h' where "h' = snd (AddShortcut h t ''f'' ''file open'')"
  have one: "length (Fields ''f'') = 1"
    by code_simp
  have ab: "fieldsOf ''a b'' = [''a'', ''b'']"
    by code_simp
  have n_target: "nextField (stripLeadingWhitespace ''file open'') = (''file'', ''open'')"
    by code_simp
  have n_open: "nextField ''open'' = (''open'', [])"
    by code_simp
  have n_f: "nextField (stripLeadingWhitespace ''f a b'') = (''f'', ''a b'')"
    by code_simp
  have n_line: "nextField (stripLeadingWhitespace ''file open a b'') = (''file'', ''open a b'')"
    by code_simp
  have n_rest: "nextField ''open a b'' = (''open'', ''a b'')"
    by code_simp
  have fileT: "FindValue ''file'' (pt (treeAt h t)) = Inr (TreeNode fa)"
    using assms(1) by (intro FindValue_exact) simp_all
  have openC: "FindValue ''open'' (pt (treeAt h fa)) = Inr (CommandNode oa)"
    using assms(2) by (intro FindValue_exact) simp_all
  have "Lookup h t ''file open'' = Inr (CommandNode oa, fieldsOf [])"
    using n_target _ fileT _ n_open openC by (rule Lookup_second_command) simp_all
  then have target: "LookupCommand h t ''file open'' = Inr (oa, [])"
    by (simp add: LookupCommand_def fieldsOf_Nil)
  have ok: "fst (AddShortcut h t ''f'' ''file open'') = None"
    using one target by (rule AddShortcut_command(1))
  have trees: "treeAt h' =
      (treeAt h)(t := (treeAt h t)\<lparr>pt := Add ''f'' (CommandNode oa) (pt (treeAt h t))\<rparr>)"
    unfolding h'_def using one target by (rule AddShortcut_command(3))
  have root: "pt (treeAt h' t) = Add ''f'' (CommandNode oa) (pt (treeAt h t))"
    by (simp add: trees)
  have f': "FindValue ''f'' (pt (treeAt h' t)) = Inr (CommandNode oa)"
    unfolding root using assms(3) by (intro FindValue_exact map_of_Add_new) simp_all
  have fileT': "FindValue ''file'' (pt (treeAt h' t)) = Inr (TreeNode fa)"
    unfolding root using assms(1) by (intro FindValue_exact map_of_Add_old) simp_all
  have "map_of (pt (treeAt h' fa)) ''open'' = Some (CommandNode oa)"
    using assms(2) by (cases "fa = t") (simp_all add: trees map_of_Add_old)
  then have openC': "FindValue ''open'' (pt (treeAt h' fa)) = Inr (CommandNode oa)"
    by (intro FindValue_exact) simp_all
  have short: "Lookup h' t ''f a b'' = Inr (CommandNode oa, fieldsOf ''a b'')"
    using n_f _ f' by (rule Lookup_first_command) simp
  have long: "Lookup h' t ''file open a b'' = Inr (CommandNode oa, fieldsOf ''a b'')"
    using n_line _ fileT' _ n_rest openC' by (rule Lookup_second_command) simp_all
  show ?thesis
    using ok short long unfolding h'_def ab by simp
qed


lemma buildHeap_root:
  "pt (treeAt buildHeap 0) =
     [(''quit'', CommandNode 1), (''verylongstring'', CommandNode 2), (''file'', TreeNode 3)]"
  by code_simp

lemma buildHeap_file:
  "pt (treeAt buildHeap 3) =
     [(''open'', CommandNode 4), (''close'', CommandNode 5), (''read'', CommandNode 6),
      (''write'', CommandNode 7), (''run'', CommandNode 8)]"
  by code_simp

theorem shortcut_same_command_witness:
  "map_of (pt (treeAt buildHeap 0)) ''file'' = Some (TreeNode 3) \<and>
   map_of (pt (treeAt buildHeap 3)) ''open'' = Some (CommandNode 4) \<and>
   ''f'' \<notin> fst ` set (pt (treeAt buildHeap 0)) \<and>
   fst (AddShortcut buildHeap 0 ''f'' ''file open'') = None \<and>
   Lookup (snd (AddShortcut buildHeap 0 ''f'' ''file open'')) 0 ''f a b''
     = Inr (CommandNode 4, [''a'', ''b'']) \<and>
   Lookup (snd (AddShortcut buildHeap 0 ''f'' ''file open'')) 0 ''file open a b''
     = Inr (CommandNode 4, [''a'', ''b''])"
proof -
  have a: "map_of (pt (treeAt buildHeap 0)) ''file'' = Some (TreeNode 3)"
    unfolding buildHeap_root by simp
  have b: "map_of (pt (treeAt buildHeap 3)) ''open'' = Some (CommandNode 4)"
    unfolding buildHeap_file by simp
  have c: "''f'' \<notin> fst ` set (pt (treeAt buildHeap 0))"
    unfolding buildHeap_root by simp
  show ?thesis
    using shortcut_same_command [OF a b c] a b c by simp
qed

text \<open>
  C4, as the spec states it, fails: in the tree of \<open>TestParent\<close> the path \<open>file open\<close> resolves
  to the subtree \<open>open\<close> (3), and \<open>AddShortcut("x", "file open")\<close> returns \<open>ErrNotFound\<close>;
  looking up \<open>x\<close> afterwards finds nothing.
\<close>

theorem AddShortcut_subtree_counterexample:
  "Lookup parentHeap 0 ''file open'' = Inr (TreeNode 3, []) \<and>
   fst (AddShortcut parentHeap 0 ''x'' ''file open'') = Some ErrNotFound \<and>
   Lookup (snd (AddShortcut parentHeap 0 ''x'' ''file open'')) 0 ''x'' = Inl ErrNotFound"
  by code_simp

text \<open>
  C4, amended: \<open>AddShortcut\<close> resolves its target with \<open>LookupCommand\<close>, so a shortcut
  dispatches to a command only. For a target path that resolves to a subtree,
  \<open>AddShortcut\<close> returns an error, \<open>ErrNotFound\<close> when the shortcut is one field, and leaves
  the store as it was. For a target path that resolves to a command, at any depth, and a
  shortcut that is one field, that \<open>nextField\<close> reads back whole, and that is not yet a key
  of the registering tree, \<open>AddShortcut\<close> succeeds and looking up the shortcut in the
  registering tree yields that command.
\<close>

theorem AddShortcut_target:
  "(Lookup h t target = Inr (TreeNode st, args) \<longrightarrow>
      fst (AddShortcut h t shortcut target) =
        Some (if length (Fields shortcut) = 1 then ErrNotFound else ErrInvalidShortcut) \<and>
      snd (AddShortcut h t shortcut target) = h) \<and>
   (Lookup h t target = Inr (CommandNode c, args) \<and>
    length (Fields shortcut) = 1 \<and>
    nextField (stripLeadingWhitespace shortcut) = (shortcut, []) \<and>
    shortcut \<notin> fst ` set (pt (treeAt h t)) \<longrightarrow>
      fst (AddShortcut h t shortcut target) = None \<and>
      Lookup (snd (AddShortcut h t shortcut target)) t shortcut = Inr (CommandNode c, []))"
proof (intro conjI impI)
  assume "Lookup h t target = Inr (TreeNode st, args)"
  then have none: "LookupCommand h t target = Inl ErrNotFound"
    by (simp add: LookupCommand_def)
  then show "fst (AddShortcut h t shortcut target) =
      Some (if length (Fields shortcut) = 1 then ErrNotFound else ErrInvalidShortcut)"
    by (simp add: AddShortcut_def)
  show "snd (AddShortcut h t shortcut target) = h"
    using none by (simp add: AddShortcut_def)
next
  assume a: "Lookup h t target = Inr (CommandNode c, args) \<and>
    length (Fields shortcut) = 1 \<and>
    nextField (stripLeadingWhitespace shortcut) = (shortcut, []) \<and>
    shortcut \<notin> fst ` set (pt (treeAt h t))"
  define h' where "h' = snd (AddShortcut h t shortcut target)"
  have one: "length (Fields shortcut) = 1"
    using a by simp
  have target: "LookupCommand h t target = Inr (c, args)"
    using a by (simp add: LookupCommand_def)
  have nonempty: "shortcut \<noteq> []"
    using one by (auto simp: Fields_Nil)
  show "fst (AddShortcut h t shortcut target) = None"
    using one target by (rule AddShortcut_command(1))
  have "treeAt h' =
      (treeAt h)(t := (treeAt h t)\<lparr>pt := Add shortcut (CommandNode c) (pt (treeAt h t))\<rparr>)"
    unfolding h'_def using one target by (rule AddShortcut_command(3))
  then have root: "pt (treeAt h' t) = Add shortcut (CommandNode c) (pt (treeAt h t))"
    by simp
  have "FindValue shortcut (pt (treeAt h' t)) = Inr (CommandNode c)"
    unfolding root using a nonempty by (intro FindValue_exact map_of_Add_new) simp_all
  with a nonempty have "Lookup h' t shortcut = Inr (CommandNode c, fieldsOf [])"
    by (intro Lookup_first_command [where field = shortcut]) simp_all
  then show "Lookup (snd (AddShortcut h t shortcut target)) t shortcut = Inr (CommandNode c, [])"
    unfolding h'_def by (simp add: fieldsOf_Nil)
qed

theorem AddShortcut_target_witness:
  "Lookup parentHeap 0 ''file open'' = Inr (TreeNode 3, []) \<and>
   AddShortcut parentHeap 0 ''x'' ''file open'' = (Some ErrNotFound, parentHeap) \<and>
   Lookup parentHeap 0 ''file open now'' = Inr (CommandNode 6, []) \<and>
   length (Fields ''f'') = 1 \<and>
   nextField (stripLeadingWhitespace ''f'') = (''f'', []) \<and>
   ''f'' \<notin> fst ` set (pt (treeAt parentHeap 0)) \<and>
   fst (AddShortcut parentHeap 0 ''f'' ''file open now'') = None \<and>
   Lookup (snd (AddShortcut parentHeap 0 ''f'' ''file open now'')) 0 ''f'' = Inr (CommandNode 6, [])"
proof -
  have a: "Lookup parentHeap 0 ''file open'' = Inr (TreeNode 3, [])"
    by code_simp
  have b: "Lookup parentHeap 0 ''file open now'' = Inr (CommandNode 6, [])"
    by code_simp
  have c: "length (Fields ''f'') = 1" "length (Fields ''x'') = 1"
    by code_simp+
  have d: "nextField (stripLeadingWhitespace ''f'') = (''f'', [])"
    by code_simp
  have e: "''f'' \<notin> fst ` set (pt (treeAt parentHeap 0))"
    unfolding parentHeap_root by simp
  show ?thesis
    using AddShortcut_target [of parentHeap 0 "''file open''" 3 "[]" "''x''"]
      AddShortcut_target [of parentHeap 0 "''file open now''" _ "[]" "''f''" 6]
      a b c d e
    by (simp add: prod_eq_iff)
qed

end
